theory Spec2Isabelle
  imports Complex_Main
begin

section \<open>apkit: acoustic signal-processing primitives\<close>

text \<open>
  The development embeds the functions of \<^verbatim>\<open>apkit/basic.py\<close> and \<^verbatim>\<open>apkit/cc.py\<close>.
  The sources are Python 2 (\<^verbatim>\<open>xrange\<close>, \<^verbatim>\<open>izip\<close>): \<^verbatim>\<open>/\<close> between two integers is
  floor division.  A one-dimensional numpy array is a list, a two-dimensional array a list
  of rows, and \<^verbatim>\<open>np.array\<close> applied to a list of rows is that list.  Double-precision
  numbers are idealised as the reals and complex numbers they approximate, so rounding
  and the non-finite values \<^verbatim>\<open>nan\<close> and \<^verbatim>\<open>inf\<close> are outside the model.  Every exception
  the code can raise is a value of \<open>py_error\<close>, returned on the left of a sum.
\<close>

datatype py_error = AssertionError | IndexError | ValueError

subsection \<open>Frequency-domain upsampling\<close>

text \<open>
  \<^verbatim>\<open>freq_upsample\<close> of \<^verbatim>\<open>basic.py\<close>.  The factor is a Python integer.  The test
  \<^verbatim>\<open>upsample == 1\<close> comes before the assertion; \<^verbatim>\<open>s[h]\<close> raises \<^verbatim>\<open>IndexError\<close> when
  \<open>h\<close> is not an index of \<open>s\<close>, which happens for the empty array, and it is evaluated
  before \<^verbatim>\<open>np.zeros\<close> is called.
\<close>

definition freq_upsample :: "complex list \<Rightarrow> int \<Rightarrow> py_error + complex list" where
  "freq_upsample s upsample =
     (if upsample = 1 then Inr s
      else if \<not> (upsample > 1) then Inl AssertionError
      else
        let l = length s in
        if l mod 2 = 0 then
          (let h = l div 2 in
           if h < length s then
             Inr (map (\<lambda>v. of_int upsample * v)
                    (take h s @ [s ! h / 2] @ replicate (l * nat (upsample - 1) - 1) 0
                       @ [s ! h / 2] @ drop (h + 1) s))
           else Inl IndexError)
        else
          (let h = l div 2 + 1 in
           Inr (map (\<lambda>v. of_int upsample * v)
                  (take h s @ replicate (l * nat (upsample - 1)) 0 @ drop h s))))"

text \<open>\<^verbatim>\<open>_freq_upsample\<close> of \<^verbatim>\<open>cc.py\<close>, a second copy of the same function.\<close>

definition cc_freq_upsample :: "complex list \<Rightarrow> int \<Rightarrow> py_error + complex list" where
  "cc_freq_upsample s upsample =
     (if upsample = 1 then Inr s
      else if \<not> (upsample > 1) then Inl AssertionError
      else
        let l = length s in
        if l mod 2 = 0 then
          (let h = l div 2 in
           if h < length s then
             Inr (map (\<lambda>v. of_int upsample * v)
                    (take h s @ [s ! h / 2] @ replicate (l * nat (upsample - 1) - 1) 0
                       @ [s ! h / 2] @ drop (h + 1) s))
           else Inl IndexError)
        else
          (let h = l div 2 + 1 in
           Inr (map (\<lambda>v. of_int upsample * v)
                  (take h s @ replicate (l * nat (upsample - 1)) 0 @ drop h s))))"

subsection \<open>Library operations\<close>

text \<open>
  The numpy operations the sources call, as numpy documents them.  The product of two
  one-dimensional arrays is elementwise; an array of length one is broadcast against the
  other, and any other pair of different lengths raises \<^verbatim>\<open>ValueError\<close>.
\<close>

definition np_mul :: "'a::times list \<Rightarrow> 'a list \<Rightarrow> py_error + 'a list" where
  "np_mul x y =
     (if length x = length y then Inr (map2 (*) x y)
      else if length x = 1 then Inr (map (\<lambda>b. hd x * b) y)
      else if length y = 1 then Inr (map (\<lambda>a. a * hd y) x)
      else Inl ValueError)"

text \<open>
  \<^verbatim>\<open>np.fft.fft\<close> and \<^verbatim>\<open>np.fft.ifft\<close> are the discrete Fourier transform and its
  inverse, \<open>A\<^sub>k = \<Sum>\<^sub>m a\<^sub>m exp (- 2\<pi>i mk/n)\<close> and \<open>a\<^sub>k = (1/n) \<Sum>\<^sub>m A\<^sub>m exp (2\<pi>i mk/n)\<close>;
  both raise \<^verbatim>\<open>ValueError\<close> on an array without data points.
\<close>

definition fft :: "complex list \<Rightarrow> py_error + complex list" where
  "fft a =
     (let n = length a in
      if n = 0 then Inl ValueError
      else Inr (map (\<lambda>k. \<Sum>m<n. a ! m * cis (- (2 * pi * real m * real k / real n)))
                  [0..<n]))"

definition ifft :: "complex list \<Rightarrow> py_error + complex list" where
  "ifft a =
     (let n = length a in
      if n = 0 then Inl ValueError
      else Inr (map (\<lambda>k. (\<Sum>m<n. a ! m * cis (2 * pi * real m * real k / real n)) / of_nat n)
                  [0..<n]))"

text \<open>\<^verbatim>\<open>np.max\<close> raises \<^verbatim>\<open>ValueError\<close> on an empty array.\<close>

definition np_max :: "real list \<Rightarrow> py_error + real" where
  "np_max a = (if a = [] then Inl ValueError else Inr (Max (set a)))"

text \<open>
  \<^verbatim>\<open>np.argmax\<close> returns the first index that holds the maximum: a scan that replaces
  the candidate only by a strictly larger entry.  It raises \<^verbatim>\<open>ValueError\<close> on an empty
  array.
\<close>

fun argmax_from :: "real list \<Rightarrow> nat \<Rightarrow> nat \<Rightarrow> real \<Rightarrow> nat" where
  "argmax_from [] i best mx = best"
| "argmax_from (v # vs) i best mx =
     (if mx < v then argmax_from vs (Suc i) i v else argmax_from vs (Suc i) best mx)"

definition argmax :: "real list \<Rightarrow> py_error + nat" where
  "argmax a = (case a of [] \<Rightarrow> Inl ValueError | v # vs \<Rightarrow> Inr (argmax_from vs 1 0 v))"

text \<open>
  \<^verbatim>\<open>np.hamming(M)\<close>: empty for \<open>M < 1\<close>, the single coefficient 1 for \<open>M = 1\<close>, and
  \<open>0.54 - 0.46 cos (2\<pi>n/(M - 1))\<close> for \<open>0 \<le> n < M\<close> otherwise.
\<close>

definition hamming :: "int \<Rightarrow> real list" where
  "hamming M =
     (if M < 1 then []
      else if M = 1 then [1]
      else map (\<lambda>n. 0.54 - 0.46 * cos (2 * pi * real n / real_of_int (M - 1))) [0..<nat M])"

text \<open>
  A slice \<^verbatim>\<open>xs[a:b]\<close>: a negative bound counts from the end, and both bounds are clamped
  to the list.  \<^verbatim>\<open>xrange(start, stop, step)\<close> raises \<^verbatim>\<open>ValueError\<close> for the step 0.
\<close>

definition py_slice :: "'a list \<Rightarrow> int \<Rightarrow> int \<Rightarrow> 'a list" where
  "py_slice xs a b =
     (let n = int (length xs);
          a' = (if a < 0 then max 0 (a + n) else min a n);
          b' = (if b < 0 then max 0 (b + n) else min b n)
      in take (nat (b' - a')) (drop (nat a') xs))"

definition xrange :: "int \<Rightarrow> int \<Rightarrow> int \<Rightarrow> py_error + int list" where
  "xrange start stop step =
     (if step = 0 then Inl ValueError
      else if 0 < step then
        Inr (map (\<lambda>i. start + int i * step) [0..<nat ((stop - start + step - 1) div step)])
      else
        Inr (map (\<lambda>i. start + int i * step) [0..<nat ((start - stop - step - 1) div (- step))]))"

text \<open>
  A list comprehension whose body can raise: the elements are computed in order and the
  first exception ends the comprehension.
\<close>

fun try_map :: "('a \<Rightarrow> py_error + 'b) \<Rightarrow> 'a list \<Rightarrow> py_error + 'b list" where
  "try_map f [] = Inr []"
| "try_map f (x # xs) =
     (case f x of
        Inl e \<Rightarrow> Inl e
      | Inr v \<Rightarrow> (case try_map f xs of Inl e \<Rightarrow> Inl e | Inr vs \<Rightarrow> Inr (v # vs)))"

subsection \<open>Windowing and the short-time Fourier transform\<close>

text \<open>
  \<^verbatim>\<open>cola_hamming\<close>: the first \<open>win_size\<close> coefficients of the Hamming window of
  \<open>win_size + 1\<close> points, each divided by 1.08, multiplied by \<open>hop_size\<close>, divided by
  \<open>win_size\<close> and doubled, in this order and in floating point, since the left operand is
  an array of floats.
\<close>

definition cola_hamming :: "int \<Rightarrow> int \<Rightarrow> real list" where
  "cola_hamming win_size hop_size =
     map (\<lambda>v. v / 1.08 * real_of_int hop_size / real_of_int win_size * 2)
       (py_slice (hamming (win_size + 1)) 0 win_size)"

text \<open>
  \<^verbatim>\<open>stft\<close>.  The signal is two-dimensional by its type, which is what the assertion
  checks.  The window function is a parameter and may raise.  For every channel \<open>c\<close> the
  frames start at the offsets of \<^verbatim>\<open>xrange(0, len(c) - win_size, hop_size)\<close>.
\<close>

definition stft_frame :: "real list \<Rightarrow> real list \<Rightarrow> int \<Rightarrow> int \<Rightarrow> py_error + complex list" where
  "stft_frame c w win_size t =
     (case np_mul (py_slice c t (t + win_size)) w of
        Inl e \<Rightarrow> Inl e
      | Inr fr \<Rightarrow> fft (map complex_of_real fr))"

definition stft_channel :: "real list \<Rightarrow> int \<Rightarrow> int \<Rightarrow> real list \<Rightarrow> py_error + complex list list" where
  "stft_channel w win_size hop_size c =
     (case xrange 0 (int (length c) - win_size) hop_size of
        Inl e \<Rightarrow> Inl e
      | Inr ts \<Rightarrow> try_map (stft_frame c w win_size) ts)"

definition stft :: "real list list \<Rightarrow> (int \<Rightarrow> int \<Rightarrow> py_error + real list) \<Rightarrow> int \<Rightarrow> int
    \<Rightarrow> py_error + complex list list list" where
  "stft signal window win_size hop_size =
     (case window win_size hop_size of
        Inl e \<Rightarrow> Inl e
      | Inr w \<Rightarrow> try_map (stft_channel w win_size hop_size) signal)"

subsection \<open>Cross correlations\<close>

text \<open>
  \<^verbatim>\<open>gcc_phat\<close> and \<^verbatim>\<open>cross_correlation\<close>.  Where a bin of the cross-power spectrum is
  zero numpy divides by zero and yields \<^verbatim>\<open>nan\<close> without raising; such inputs are outside
  the model.  In \<^verbatim>\<open>cross_correlation\<close> the inverse transform is evaluated before the
  maximum.
\<close>

definition gcc_phat :: "complex list \<Rightarrow> complex list \<Rightarrow> int \<Rightarrow> py_error + real list" where
  "gcc_phat x y upsample =
     (case np_mul x (map cnj y) of
        Inl e \<Rightarrow> Inl e
      | Inr cpsd \<Rightarrow>
          (case cc_freq_upsample (map (\<lambda>c. c / complex_of_real (cmod c)) cpsd) upsample of
             Inl e \<Rightarrow> Inl e
           | Inr cpsd_phat \<Rightarrow>
               (case ifft cpsd_phat of
                  Inl e \<Rightarrow> Inl e
                | Inr cc \<Rightarrow> Inr (map Re cc))))"

definition cross_correlation :: "complex list \<Rightarrow> complex list \<Rightarrow> int \<Rightarrow> py_error + real list" where
  "cross_correlation x y upsample =
     (case np_mul x (map cnj y) of
        Inl e \<Rightarrow> Inl e
      | Inr xy \<Rightarrow>
          (case cc_freq_upsample xy upsample of
             Inl e \<Rightarrow> Inl e
           | Inr cpsd \<Rightarrow>
               (case ifft cpsd of
                  Inl e \<Rightarrow> Inl e
                | Inr cc \<Rightarrow>
                    (case np_max (map cmod cpsd) of
                       Inl e \<Rightarrow> Inl e
                     | Inr mx \<Rightarrow> Inr (map (\<lambda>v. Re (v / complex_of_real mx)) cc)))))"

text \<open>
  A correlation function is a parameter of \<^verbatim>\<open>tdoa\<close>, \<^verbatim>\<open>cc_across_time\<close> and
  \<^verbatim>\<open>pairwise_cc\<close>; it is called with two arguments and may raise, as the two functions
  above do.
\<close>

type_synonym cc_fn = "complex list \<Rightarrow> complex list \<Rightarrow> py_error + real list"



definition cc_across_time :: "complex list list \<Rightarrow> complex list list \<Rightarrow> cc_fn
    \<Rightarrow> py_error + real list list" where
  "cc_across_time tfx tfy cc_func = try_map (\<lambda>(x, y). cc_func x y) (zip tfx tfy)"

text \<open>
  \<^verbatim>\<open>pairwise_cc\<close>: the dictionary comprehension visits \<open>x\<close> and then \<open>y\<close> in increasing
  order, keeps the pairs with \<open>x < y\<close>, and stores each value under its key as it goes.
\<close>

fun cc_dict :: "(nat \<times> nat) list \<Rightarrow> complex list list list \<Rightarrow> cc_fn
    \<Rightarrow> (nat \<times> nat \<rightharpoonup> real list list) \<Rightarrow> py_error + (nat \<times> nat \<rightharpoonup> real list list)" where
  "cc_dict [] tf cc_func d = Inr d"
| "cc_dict ((x, y) # ps) tf cc_func d =
     (case cc_across_time (tf ! x) (tf ! y) cc_func of
        Inl e \<Rightarrow> Inl e
      | Inr v \<Rightarrow> cc_dict ps tf cc_func (d((x, y) \<mapsto> v)))"

definition channel_pairs :: "nat \<Rightarrow> (nat \<times> nat) list" where
  "channel_pairs nch = concat (map (\<lambda>x. map (Pair x) (filter (\<lambda>y. x < y) [0..<nch])) [0..<nch])"

definition pairwise_cc :: "complex list list list \<Rightarrow> cc_fn
    \<Rightarrow> py_error + (nat \<times> nat \<rightharpoonup> real list list)" where
  "pairwise_cc tf cc_func = (let nch = length tf in cc_dict (channel_pairs nch) tf cc_func Map.empty)"

subsection \<open>Conjugate symmetry\<close>

text \<open>
  A spectrum of length \<open>l\<close> is conjugate-symmetric when bin \<open>k\<close> is the complex conjugate
  of bin \<open>(l - k) mod l\<close>, for every \<open>k\<close>; these are the spectra of real signals.
\<close>

definition conj_symmetric :: "complex list \<Rightarrow> bool" where
  "conj_symmetric s =
     list_all (\<lambda>k. s ! k = cnj (s ! ((length s - k) mod length s))) [0..<length s]"

section \<open>Properties\<close>

lemma cc_freq_upsample_eq: "cc_freq_upsample s k = freq_upsample s k"
  by (simp add: cc_freq_upsample_def freq_upsample_def)

text \<open>
  C7.  Upsampling by the factor 1 returns the spectrum it was given, whatever its length:
  nothing is padded or scaled and the assertion is not reached.  This holds for both
  copies of the function.
\<close>

theorem freq_upsample_one_identity:
  "freq_upsample s 1 = Inr s \<and> cc_freq_upsample s 1 = Inr s"
  by (simp add: freq_upsample_def cc_freq_upsample_def)

subsection \<open>Upsampling an even-length spectrum\<close>

lemma nth_pad_even:
  fixes s :: "complex list" and a :: complex and z :: nat
  assumes "h < length s"
  defines "r \<equiv> take h s @ [a] @ replicate z 0 @ [a] @ drop (h + 1) s"
  shows "length r = length s + z + 1"
    and "i < h \<Longrightarrow> r ! i = s ! i"
    and "r ! h = a"
    and "r ! (h + z + 1) = a"
    and "h < i \<Longrightarrow> i < h + z + 1 \<Longrightarrow> r ! i = 0"
    and "h + z + 1 < i \<Longrightarrow> i < length s + z + 1 \<Longrightarrow> r ! i = s ! (i - z - 1)"
proof -
  show "length r = length s + z + 1" using assms by (simp add: r_def)
  show "i < h \<Longrightarrow> r ! i = s ! i" using assms by (simp add: r_def nth_append)
  show "r ! h = a" using assms by (simp add: r_def nth_append)
  show "r ! (h + z + 1) = a" using assms by (simp add: r_def nth_append)
  show "h < i \<Longrightarrow> i < h + z + 1 \<Longrightarrow> r ! i = 0"
    using assms by (auto simp: r_def nth_append nth_Cons')
  show "r ! i = s ! (i - z - 1)" if "h + z + 1 < i" "i < length s + z + 1"
  proof -
    define d where "d = i - (h + z + 2)"
    have d: "i = h + z + 2 + d" using that(1) by (simp add: d_def)
    have "r ! i = drop (h + 1) s ! d"
      using assms by (simp add: r_def nth_append d nth_Cons')
    also have "\<dots> = s ! (h + 1 + d)" using that(2) d by simp
    finally show ?thesis using d by simp
  qed
qed

lemma freq_upsample_even_unfold:
  assumes "even (length s)" and "s \<noteq> []" and "1 < k"
  shows "freq_upsample s k =
     Inr (map (\<lambda>v. of_int k * v)
       (take (length s div 2) s @ [s ! (length s div 2) / 2]
          @ replicate (length s * nat (k - 1) - 1) 0
          @ [s ! (length s div 2) / 2] @ drop (length s div 2 + 1) s))"
  using assms by (auto simp: freq_upsample_def Let_def)

text \<open>
  C3, as amended.  For every non-empty even-length spectrum \<open>s\<close> of length \<open>l\<close> and every
  integer \<open>k > 1\<close>, both copies of \<^verbatim>\<open>freq_upsample\<close> return an array of length \<open>l * k\<close>
  whose bins \<open>0 .. l/2 - 1\<close> are \<open>k\<close> times those of \<open>s\<close>, whose bins \<open>l/2\<close> and
  \<open>l * k - l/2\<close> both hold \<open>k * s[l/2] / 2\<close>, and whose bins strictly between these two
  are zero.
\<close>

theorem freq_upsample_even_bins:
  assumes "even (length s)" and "s \<noteq> []" and "1 < k"
  shows "\<exists>r. freq_upsample s k = Inr r \<and> cc_freq_upsample s k = Inr r
           \<and> length r = length s * nat k
           \<and> (\<forall>i < length s div 2. r ! i = of_int k * s ! i)
           \<and> r ! (length s div 2) = of_int k * s ! (length s div 2) / 2
           \<and> r ! (length s * nat k - length s div 2) = of_int k * s ! (length s div 2) / 2
           \<and> (\<forall>i. length s div 2 < i \<and> i < length s * nat k - length s div 2 \<longrightarrow> r ! i = 0)"
proof -
  define l where "l = length s"
  define h where "h = l div 2"
  define z where "z = l * nat (k - 1) - 1"
  define a where "a = s ! h / 2"
  define p where "p = take h s @ [a] @ replicate z 0 @ [a] @ drop (h + 1) s"
  define r where "r = map (\<lambda>v. of_int k * v) p"
  have l2: "l = 2 * h" using assms(1) by (simp add: l_def h_def)
  have l0: "0 < l" using assms(2) by (simp add: l_def)
  then have h0: "0 < h" using l2 by linarith
  have hl: "h < length s" using l2 h0 by (simp add: l_def[symmetric])
  define m where "m = nat k - 2"
  have m: "nat k = m + 2" using assms(3) by (simp add: m_def)
  have km: "nat (k - 1) = m + 1" using m by linarith
  have "0 < l * (m + 1)" using l0 by simp
  then have z1: "z + 1 = l * (m + 1)" unfolding z_def km by linarith
  note pe = nth_pad_even[OF hl, where a=a and z=z, folded p_def]
  have len: "length p = l * nat k"
    using pe(1) z1 by (simp add: l_def[symmetric] m algebra_simps)
  have pos2: "l * nat k - h = h + z + 1"
    using z1 l2 by (simp add: m algebra_simps)
  have r: "freq_upsample s k = Inr r"
    using freq_upsample_even_unfold[OF assms] by (simp add: r_def p_def a_def z_def h_def l_def)
  have b1: "r ! i = of_int k * s ! i" if "i < h" for i
    using pe(2)[OF that] that len l2 m by (simp add: r_def)
  have b2: "r ! h = of_int k * s ! h / 2"
    using pe(3) len l2 m h0 by (simp add: r_def a_def)
  have b3: "r ! (h + z + 1) = of_int k * s ! h / 2"
    using pe(4) len pos2 l2 m h0 by (simp add: r_def a_def)
  have b4: "r ! i = 0" if "h < i" "i < h + z + 1" for i
    using pe(5)[OF that] that len pos2 l2 m by (simp add: r_def)
  show ?thesis
    using r b1 b2 b3 b4 len pos2
    by (auto simp: cc_freq_upsample_eq r_def l_def[symmetric] h_def[symmetric])
qed

theorem freq_upsample_even_bins_witness:
  "even (length [1, 2 :: complex]) \<and> [1, 2 :: complex] \<noteq> [] \<and> (1 :: int) < 2
     \<and> (\<exists>r. freq_upsample [1, 2] 2 = Inr r \<and> length r = 4 \<and> r ! 0 = 2 \<and> r ! 1 = 2 \<and> r ! 3 = 2)"
  using freq_upsample_even_bins [of "[1, 2]" 2] by auto

text \<open>
  The claim as it stands also covers the empty spectrum, whose length 0 is even; there
  \<^verbatim>\<open>s[h]\<close> with \<open>h = 0\<close> raises \<^verbatim>\<open>IndexError\<close> and no array is returned.
\<close>

theorem freq_upsample_even_empty_counterexample:
  "even (length ([] :: complex list)) \<and> (1 :: int) < 2
     \<and> freq_upsample [] 2 = Inl IndexError \<and> cc_freq_upsample [] 2 = Inl IndexError"
  by (simp add: freq_upsample_def cc_freq_upsample_def)

subsection \<open>Correlations across time and between channels\<close>

lemma try_map_Inr:
  assumes "\<And>x. x \<in> set xs \<Longrightarrow> \<exists>v. f x = Inr v"
  shows "\<exists>vs. try_map f xs = Inr vs \<and> length vs = length xs \<and> (\<forall>i < length xs. f (xs ! i) = Inr (vs ! i))"
  using assms
proof (induction xs)
  case Nil
  then show ?case by simp
next
  case (Cons x xs)
  obtain v where v: "f x = Inr v" using Cons.prems by auto
  obtain vs where vs: "try_map f xs = Inr vs" "length vs = length xs"
    "\<forall>i < length xs. f (xs ! i) = Inr (vs ! i)"
    using Cons.IH Cons.prems by auto
  show ?case using v vs by (auto simp: nth_Cons')
qed

text \<open>
  C8, as amended.  For signals \<open>tfx\<close> with \<open>m\<close> frames and \<open>tfy\<close> with \<open>n\<close> frames and a
  correlation function that returns a result on each of the first \<open>min m n\<close> pairs of frames,
  \<^verbatim>\<open>cc_across_time\<close> returns exactly \<open>min m n\<close> rows, row \<open>t\<close> being the correlation of
  frame \<open>t\<close> of each input; the frames beyond the shorter input are not looked at.
\<close>

theorem cc_across_time_truncates:
  assumes "\<And>t. t < min (length tfx) (length tfy) \<Longrightarrow> \<exists>r. cc_func (tfx ! t) (tfy ! t) = Inr r"
  shows "\<exists>rows. cc_across_time tfx tfy cc_func = Inr rows
           \<and> length rows = min (length tfx) (length tfy)
           \<and> (\<forall>t < min (length tfx) (length tfy). cc_func (tfx ! t) (tfy ! t) = Inr (rows ! t))"
proof -
  have "\<exists>v. (\<lambda>(x, y). cc_func x y) p = Inr v" if pin: "p \<in> set (zip tfx tfy)" for p
  proof -
    obtain t where "t < length tfx" "t < length tfy" "p = (tfx ! t, tfy ! t)"
      using pin by (auto simp: in_set_conv_nth)
    then show ?thesis using assms[of t] by simp
  qed
  from try_map_Inr[of "zip tfx tfy" "\<lambda>(x, y). cc_func x y", OF this]
  show ?thesis by (auto simp: cc_across_time_def)
qed

theorem cc_across_time_truncates_witness:
  "cc_across_time [[1], [1]] [[1]] (\<lambda>x y. gcc_phat x y 1) = Inr [[1]]"
proof -
  have g: "gcc_phat [1] [1] 1 = Inr [1]"
    by (simp add: gcc_phat_def np_mul_def cc_freq_upsample_def ifft_def)
  have "\<exists>r. gcc_phat ([[1], [1]] ! t) ([[1]] ! t) 1 = Inr r"
    if "t < min (length [[1], [1::complex]]) (length [[1::complex]])" for t
    using that g by simp
  from cc_across_time_truncates[of "[[1], [1]]" "[[1]]" "\<lambda>x y. gcc_phat x y 1", OF this]
  show ?thesis using g by (auto simp: length_Suc_conv)
qed

text \<open>
  A correlation function that raises ends the call: \<^verbatim>\<open>gcc_phat\<close> on a frame of two bins
  and a frame of three bins cannot broadcast its product.
\<close>

theorem cc_across_time_error_counterexample:
  "cc_across_time [[1, 2]] [[1, 2, 3]] (\<lambda>x y. gcc_phat x y 1) = Inl ValueError"
  by (simp add: cc_across_time_def gcc_phat_def np_mul_def)

lemma set_channel_pairs: "set (channel_pairs n) = {(i, j). i < j \<and> j < n}"
  by (force simp: channel_pairs_def)

lemma cc_dict_Inr:
  assumes "\<And>x y. (x, y) \<in> set ps \<Longrightarrow> \<exists>v. cc_across_time (tf ! x) (tf ! y) f = Inr v"
  shows "\<exists>m. cc_dict ps tf f d = Inr m \<and> dom m = dom d \<union> set ps
           \<and> (\<forall>k. k \<notin> set ps \<longrightarrow> m k = d k)
           \<and> (\<forall>x y. (x, y) \<in> set ps \<longrightarrow> cc_across_time (tf ! x) (tf ! y) f = Inr (the (m (x, y))))"
  using assms
proof (induction ps arbitrary: d)
  case Nil
  then show ?case by simp
next
  case (Cons p ps)
  obtain x y where p: "p = (x, y)" by (cases p)
  obtain v where v: "cc_across_time (tf ! x) (tf ! y) f = Inr v"
    using Cons.prems(1)[of x y] p by auto
  have "\<exists>m. cc_dict ps tf f (d((x, y) \<mapsto> v)) = Inr m \<and> dom m = dom (d((x, y) \<mapsto> v)) \<union> set ps
           \<and> (\<forall>k. k \<notin> set ps \<longrightarrow> m k = (d((x, y) \<mapsto> v)) k)
           \<and> (\<forall>x y. (x, y) \<in> set ps \<longrightarrow> cc_across_time (tf ! x) (tf ! y) f = Inr (the (m (x, y))))"
    using Cons.prems by (intro Cons.IH) auto
  then obtain m where m: "cc_dict ps tf f (d((x, y) \<mapsto> v)) = Inr m"
    "dom m = dom (d((x, y) \<mapsto> v)) \<union> set ps"
    "\<forall>k. k \<notin> set ps \<longrightarrow> m k = (d((x, y) \<mapsto> v)) k"
    "\<forall>x y. (x, y) \<in> set ps \<longrightarrow> cc_across_time (tf ! x) (tf ! y) f = Inr (the (m (x, y)))"
    by blast
  have "the (m (x, y)) = v"
  proof (cases "(x, y) \<in> set ps")
    case True
    then show ?thesis using m(4) v by auto
  next
    case False
    then show ?thesis using m(3) by simp
  qed
  then show ?case using m v p by auto
qed


text \<open>
  C9, as amended.  For a signal of \<open>nch\<close> channels and a correlation function for which
  \<^verbatim>\<open>cc_across_time\<close> returns on every two channels \<open>i < j\<close>, \<^verbatim>\<open>pairwise_cc\<close> returns a
  mapping whose keys are exactly the pairs \<open>(i, j)\<close> with \<open>i < j < nch\<close>, and the value at
  \<open>(i, j)\<close> is the result of \<^verbatim>\<open>cc_across_time\<close> on channels \<open>i\<close> and \<open>j\<close>.
\<close>

theorem pairwise_cc_pairs:
  assumes "\<And>i j. i < j \<Longrightarrow> j < length tf \<Longrightarrow> \<exists>v. cc_across_time (tf ! i) (tf ! j) cc_func = Inr v"
  shows "\<exists>m. pairwise_cc tf cc_func = Inr m
           \<and> dom m = {(i, j). i < j \<and> j < length tf}
           \<and> (\<forall>i j. i < j \<and> j < length tf \<longrightarrow>
                 (\<exists>v. m (i, j) = Some v \<and> cc_across_time (tf ! i) (tf ! j) cc_func = Inr v))"
proof -
  have "\<exists>v. cc_across_time (tf ! x) (tf ! y) cc_func = Inr v"
    if "(x, y) \<in> set (channel_pairs (length tf))" for x y
    using that assms by (simp add: set_channel_pairs)
  from cc_dict_Inr[of "channel_pairs (length tf)" tf cc_func Map.empty, OF this]
  obtain m where m: "cc_dict (channel_pairs (length tf)) tf cc_func Map.empty = Inr m"
    "dom m = set (channel_pairs (length tf))"
    "\<forall>x y. (x, y) \<in> set (channel_pairs (length tf)) \<longrightarrow>
        cc_across_time (tf ! x) (tf ! y) cc_func = Inr (the (m (x, y)))"
    by auto
  have "\<exists>v. m (i, j) = Some v \<and> cc_across_time (tf ! i) (tf ! j) cc_func = Inr v"
    if "i < j" "j < length tf" for i j
  proof -
    have ij: "(i, j) \<in> set (channel_pairs (length tf))" using that by (simp add: set_channel_pairs)
    then obtain v where "m (i, j) = Some v" using m(2) by blast
    then show ?thesis using m(3) ij by auto
  qed
  then show ?thesis using m(1,2) by (auto simp: pairwise_cc_def set_channel_pairs)
qed

theorem pairwise_cc_pairs_witness:
  "\<exists>m. pairwise_cc [[[1]], [[1]], [[1]]] (\<lambda>x y. gcc_phat x y 1) = Inr m
      \<and> dom m = {(0, 1), (0, 2), (1, 2)} \<and> m (0, 1) = Some [[1]]"
proof -
  have g: "gcc_phat [1] [1] 1 = Inr [1]"
    by (simp add: gcc_phat_def np_mul_def cc_freq_upsample_def ifft_def)
  have c: "cc_across_time [[1]] [[1]] (\<lambda>x y. gcc_phat x y 1) = Inr [[1]]"
    by (simp add: cc_across_time_def g)
  have nth3: "[[[1]], [[1]], [[1 :: complex]]] ! j = [[1]]" if "j < 3" for j
    using that by (cases j rule: nat.exhaust; simp add: nth_Cons' less_Suc_eq)
  have hyp: "\<exists>v. cc_across_time ([[[1]], [[1]], [[1]]] ! i) ([[[1]], [[1]], [[1]]] ! j)
          (\<lambda>x y. gcc_phat x y 1) = Inr v"
    if "i < j" "j < length [[[1]], [[1]], [[1 :: complex]]]" for i j
    using that c nth3[of i] nth3[of j] by simp
  have len: "length [[[1]], [[1]], [[1 :: complex]]] = 3" by simp
  from pairwise_cc_pairs[of "[[[1]], [[1]], [[1]]]" "\<lambda>x y. gcc_phat x y 1", OF hyp, unfolded len]
  obtain m where m: "pairwise_cc [[[1]], [[1]], [[1]]] (\<lambda>x y. gcc_phat x y 1) = Inr m"
    "dom m = {(i, j). i < j \<and> j < (3 :: nat)}"
    "\<forall>i j. i < j \<and> j < (3 :: nat) \<longrightarrow>
       (\<exists>v. m (i, j) = Some v \<and> cc_across_time ([[[1]], [[1]], [[1]]] ! i) ([[[1]], [[1]], [[1]]] ! j)
          (\<lambda>x y. gcc_phat x y 1) = Inr v)"
    by blast
  have d: "{(i, j). i < j \<and> j < (3 :: nat)} = {(0, 1), (0, 2), (1, 2)}"
    by (auto simp: less_Suc_eq numeral_3_eq_3)
  have "m (0, 1) = Some [[1]]" using m(3) c by force
  then show ?thesis using m(1,2) d by auto
qed

text \<open>
  On a signal of two channels, one frame and no frequency bins, \<^verbatim>\<open>gcc_phat\<close> raises in
  the inverse transform, and so does \<^verbatim>\<open>pairwise_cc\<close>.
\<close>

theorem pairwise_cc_error_counterexample:
  "pairwise_cc [[[]], [[]]] (\<lambda>x y. gcc_phat x y 1) = Inl ValueError"
  by (simp add: pairwise_cc_def channel_pairs_def upt_conv_Cons cc_across_time_def gcc_phat_def
      np_mul_def cc_freq_upsample_def ifft_def)

subsection \<open>Time difference of arrival\<close>













subsection \<open>Frames of the short-time Fourier transform\<close>

lemma length_py_slice_inside:
  "0 \<le> t \<Longrightarrow> 0 \<le> w \<Longrightarrow> t + w \<le> int (length c) \<Longrightarrow> length (py_slice c t (t + w)) = nat w"
  by (auto simp: py_slice_def Let_def min_def max_def)

lemma length_cola_hamming: "0 \<le> win_size \<Longrightarrow> length (cola_hamming win_size hop_size) = nat win_size"
  by (auto simp: cola_hamming_def py_slice_def hamming_def Let_def min_def max_def)

lemma stft_frame_Inr:
  assumes "0 \<le> t" and "1 \<le> win_size" and "t + win_size \<le> int (length c)" and "length w = nat win_size"
  shows "\<exists>F. stft_frame c w win_size t = Inr F"
proof -
  have "length (py_slice c t (t + win_size)) = length w"
    using assms by (simp add: length_py_slice_inside)
  moreover have "w \<noteq> []" using assms(2,4) by auto
  ultimately show ?thesis
    by (simp add: stft_frame_def np_mul_def fft_def Let_def)
qed

lemma xrange_up:
  assumes "0 < step"
  shows "\<exists>ts. xrange 0 stop step = Inr ts \<and> length ts = nat ((stop + step - 1) div step)
           \<and> (\<forall>t \<in> set ts. 0 \<le> t \<and> t < stop)"
proof -
  define k where "k = (stop + step - 1) div step"
  have "int i * step < stop" if "int i < k" for i
  proof -
    have "int i + 1 \<le> k" using that by simp
    then have le: "(int i + 1) * step \<le> k * step" using assms by (simp add: mult_right_mono)
    have m0: "0 \<le> (stop + step - 1) mod step" using assms by simp
    have "k * step = (stop + step - 1) - (stop + step - 1) mod step"
      by (simp add: k_def minus_mod_eq_div_mult)
    then have "k * step \<le> stop + step - 1" using m0 by linarith
    then have "(int i + 1) * step \<le> stop + step - 1" using le by linarith
    then show ?thesis by (simp add: algebra_simps)
  qed
  then show ?thesis using assms by (auto simp: xrange_def k_def)
qed


text \<open>
  The number of frames the code produces for a channel of \<open>n\<close> samples is the number of
  offsets \<open>0, hop_size, 2 * hop_size, \<dots>\<close> strictly below \<open>n - win_size\<close>, that is
  \<open>\<lceil>(n - win_size) / hop_size\<rceil>\<close>.
\<close>

lemma stft_channel_frames:
  assumes "1 \<le> win_size" and "1 \<le> hop_size" and "length w = nat win_size"
  shows "\<exists>fs. stft_channel w win_size hop_size c = Inr fs
           \<and> length fs = nat ((int (length c) - win_size + hop_size - 1) div hop_size)"
proof -
  obtain ts where ts: "xrange 0 (int (length c) - win_size) hop_size = Inr ts"
    "length ts = nat ((int (length c) - win_size + hop_size - 1) div hop_size)"
    "\<forall>t \<in> set ts. 0 \<le> t \<and> t < int (length c) - win_size"
    using xrange_up[of hop_size "int (length c) - win_size"] assms(2) by auto
  have "\<exists>F. stft_frame c w win_size t = Inr F" if tin: "t \<in> set ts" for t
    using ts(3) tin assms(1,3) by (intro stft_frame_Inr) auto
  from try_map_Inr[of ts "stft_frame c w win_size", OF this]
  show ?thesis using ts(1,2) by (auto simp: stft_channel_def)
qed

lemma stft_frame_counts:
  assumes "1 \<le> win_size" and "1 \<le> hop_size"
    and "window win_size hop_size = Inr w" and "length w = nat win_size"
  shows "\<exists>tf. stft signal window win_size hop_size = Inr tf
           \<and> map length tf =
               map (\<lambda>c. nat ((int (length c) - win_size + hop_size - 1) div hop_size)) signal"
proof -
  let ?n = "\<lambda>c. nat ((int (length c) - win_size + hop_size - 1) div hop_size)"
  have ch: "\<exists>fs. stft_channel w win_size hop_size c = Inr fs \<and> length fs = ?n c" for c
    using stft_channel_frames[OF assms(1,2,4)] .
  then have "\<exists>fs. stft_channel w win_size hop_size c = Inr fs" if "c \<in> set signal" for c
    by blast
  from try_map_Inr[of signal "stft_channel w win_size hop_size", OF this]
  obtain tf where tf: "try_map (stft_channel w win_size hop_size) signal = Inr tf"
    "length tf = length signal"
    "\<forall>i < length signal. stft_channel w win_size hop_size (signal ! i) = Inr (tf ! i)"
    by blast
  have "length (tf ! i) = ?n (signal ! i)" if "i < length signal" for i
    using ch[of "signal ! i"] tf(3) that by auto
  then have "map length tf = map ?n signal"
    using tf(2) by (simp add: list_eq_iff_nth_eq)
  then show ?thesis using tf(1) by (simp add: stft_def assms(3))
qed

text \<open>
  C1.  The claim gives every channel \<open>\<lfloor>(nsamples - win_size) / hop_size\<rfloor> + 1\<close> frames, one
  for each offset \<open>t\<close> with \<open>t + win_size \<le> nsamples\<close>.  The bound of \<^verbatim>\<open>xrange\<close> is
  \<open>len(c) - win_size\<close>, exclusive, so the offset \<open>t = nsamples - win_size\<close> of the last
  complete frame is never visited.  On one channel of four samples with \<open>win_size = 2\<close>
  and \<open>hop_size = 2\<close> the offsets \<open>0\<close> and \<open>2\<close> both fit and the claim counts two frames;
  the code returns one.
\<close>

theorem stft_misses_last_full_frame:
  "\<exists>tf. stft [[1, 2, 3, 4]] (\<lambda>w h. Inr (cola_hamming w h)) 2 2 = Inr tf \<and> map length tf = [1]"
  using stft_frame_counts[of 2 2 "\<lambda>w h. Inr (cola_hamming w h)" "cola_hamming 2 2" "[[1, 2, 3, 4]]"]
  by (simp add: length_cola_hamming)

subsection \<open>Sums over the roots of unity\<close>

lemma cis_root_neq_1:
  assumes "0 < k" and "k < N"
  shows "cis (2 * pi * real k / real N) \<noteq> 1"
proof
  assume "cis (2 * pi * real k / real N) = 1"
  then have "cos (2 * pi * real k / real N) = 1" by (simp add: complex_eq_iff)
  then obtain n :: int where n: "2 * pi * real k / real N = real_of_int n * 2 * pi"
    using cos_one_2pi_int by blast
  have N0: "0 < real N" using assms by simp
  from n have "(2 * pi) * (real k / real N) = (2 * pi) * real_of_int n"
    by (simp add: algebra_simps)
  then have "real k / real N = real_of_int n"
    unfolding mult_cancel_left by simp
  then have "real k = real_of_int n * real N" using N0 by (simp add: field_simps)
  then have kn: "int k = n * int N" by (metis of_int_mult of_int_of_nat_eq of_int_eq_iff)
  have "0 < n * int N" "n * int N < int N" using kn assms by linarith+
  then have "0 < n" "n < 1"
    using assms by (simp_all add: zero_less_mult_iff)
  then show False by linarith
qed

lemma sum_roots_of_unity:
  assumes "0 < k" and "k < N"
  shows "(\<Sum>m<N. cis (2 * pi * real m * real k / real N)) = 0"
proof -
  define w where "w = cis (2 * pi * real k / real N)"
  have w1: "w \<noteq> 1" unfolding w_def using assms by (rule cis_root_neq_1)
  have pw: "cis (2 * pi * real m * real k / real N) = w ^ m" for m
    by (simp add: w_def DeMoivre algebra_simps)
  have "w ^ N = cis (2 * pi * real k)"
    using assms by (simp add: w_def DeMoivre)
  then have wN: "w ^ N = 1" by simp
  have "(\<Sum>m<N. w ^ m) = (w ^ N - 1) / (w - 1)" using w1 by (rule geometric_sum)
  then show ?thesis using wN by (simp add: pw)
qed

lemma sum_cos_shifted:
  assumes "2 \<le> R"
  shows "(\<Sum>j<R. cos (a + 2 * pi * real j / real R)) = 0"
proof -
  have "(\<Sum>j<R. cis (a + 2 * pi * real j / real R)) = cis a * (\<Sum>j<R. cis (2 * pi * real j * real 1 / real R))"
    by (simp add: sum_distrib_left cis_mult)
  also have "\<dots> = 0" using sum_roots_of_unity[of 1 R] assms by simp
  finally have "Re (\<Sum>j<R. cis (a + 2 * pi * real j / real R)) = 0" by simp
  then show ?thesis by simp
qed


subsection \<open>The phase transform of a signal with itself\<close>

lemma phat_self_bin:
  assumes "b \<noteq> 0"
  shows "(b * cnj b) / complex_of_real (cmod (b * cnj b)) = 1"
proof -
  have e: "b * cnj b = complex_of_real ((cmod b)\<^sup>2)" by (rule complex_norm_square[symmetric])
  have p: "0 < (cmod b)\<^sup>2" using assms by simp
  have "cmod (complex_of_real ((cmod b)\<^sup>2)) = (cmod b)\<^sup>2"
    unfolding norm_of_real using p by linarith
  then show ?thesis unfolding e using p by simp
qed

lemma phat_self:
  assumes "\<forall>b \<in> set x. b \<noteq> 0"
  shows "map (\<lambda>c. c / complex_of_real (cmod c)) (map2 (*) x (map cnj x)) = replicate (length x) 1"
  using assms
proof (induction x)
  case Nil
  then show ?case by simp
next
  case (Cons b x)
  have "b \<noteq> 0" using Cons.prems by simp
  then have "(b * cnj b) / complex_of_real (cmod (b * cnj b)) = 1"
    by (rule phat_self_bin)
  moreover have "map (\<lambda>c. c / complex_of_real (cmod c)) (map2 (*) x (map cnj x)) = replicate (length x) 1"
    using Cons.prems by (intro Cons.IH) simp
  ultimately show ?case by (simp del: complex_cnj_mult)
qed

lemma ifft_ones:
  assumes "0 < N"
  shows "ifft (replicate N 1) = Inr (map (\<lambda>n. if n = 0 then 1 else 0) [0..<N])"
proof -
  have "(\<Sum>m<N. replicate N (1 :: complex) ! m * cis (2 * pi * real m * real k / real N)) / of_nat N
          = (if k = 0 then 1 else 0)" if "k < N" for k
  proof (cases "k = 0")
    case True
    then show ?thesis using assms by simp
  next
    case False
    then have "(\<Sum>m<N. cis (2 * pi * real m * real k / real N)) = 0"
      using that by (intro sum_roots_of_unity) auto
    then show ?thesis using False by simp
  qed
  then show ?thesis using assms by (simp add: ifft_def)
qed

lemma argmax_from_keeps: "\<forall>v \<in> set vs. v \<le> mx \<Longrightarrow> argmax_from vs i best mx = best"
  by (induction vs arbitrary: i) auto

text \<open>
  C5.  For a signal \<open>x\<close> of length \<open>N \<ge> 1\<close> without a zero bin, \<^verbatim>\<open>gcc_phat(x, x)\<close> is the unit
  impulse: 1 at lag 0 and 0 at every other lag.  Its maximum is at lag 0, and that is the
  index \<^verbatim>\<open>np.argmax\<close> returns.
\<close>

theorem gcc_phat_self_peak_at_zero:
  assumes "1 \<le> length x" and "\<forall>b \<in> set x. b \<noteq> 0"
  shows "\<exists>cc. gcc_phat x x 1 = Inr cc \<and> length cc = length x \<and> cc ! 0 = 1
           \<and> (\<forall>n. 0 < n \<and> n < length x \<longrightarrow> cc ! n = 0)
           \<and> (\<forall>n < length x. cc ! n \<le> cc ! 0)
           \<and> argmax cc = Inr 0"
proof -
  define cc :: "real list" where "cc = map (\<lambda>n. if n = 0 then 1 else 0) [0..<length x]"
  have N: "0 < length x" using assms(1) by linarith
  have xne: "x \<noteq> []" using N by auto
  have m: "np_mul x (map cnj x) = Inr (map2 (*) x (map cnj x))"
    by (simp add: np_mul_def)
  have u: "cc_freq_upsample (replicate (length x) 1) 1 = Inr (replicate (length x) 1)"
    by (simp add: cc_freq_upsample_def)
  have "map Re (map (\<lambda>n. if n = 0 then 1 else 0) [0..<length x]) = cc"
    by (simp add: cc_def if_distrib[of Re] cong: if_cong)
  then have g: "gcc_phat x x 1 = Inr cc"
    unfolding gcc_phat_def m sum.case phat_self[OF assms(2)] u ifft_ones[OF N] by simp
  have nth: "cc ! n = (if n = 0 then 1 else 0)" if "n < length x" for n
    using that by (simp add: cc_def)
  have "[0..<length x] = 0 # [Suc 0..<length x]" using N by (simp add: upt_conv_Cons)
  then have vs: "cc = 1 # map (\<lambda>n. if n = 0 then 1 else 0) [Suc 0..<length x]"
    by (simp add: cc_def)
  have "argmax cc = Inr 0" unfolding vs by (simp add: argmax_def argmax_from_keeps)
  then show ?thesis using g nth N by (auto simp: cc_def)
qed

theorem gcc_phat_self_peak_at_zero_witness:
  "gcc_phat [2, 3] [2, 3] 1 = Inr [1, 0] \<and> argmax [1, 0] = Inr 0"
proof -
  have "\<exists>cc. gcc_phat [2, 3] [2, 3] 1 = Inr cc \<and> length cc = length [2, 3 :: complex] \<and> cc ! 0 = 1
           \<and> (\<forall>n. 0 < n \<and> n < length [2, 3 :: complex] \<longrightarrow> cc ! n = 0)
           \<and> (\<forall>n < length [2, 3 :: complex]. cc ! n \<le> cc ! 0)
           \<and> argmax cc = Inr 0"
    by (rule gcc_phat_self_peak_at_zero) simp_all
  then obtain cc where cc: "gcc_phat [2, 3] [2, 3] 1 = Inr cc" "length cc = 2" "cc ! 0 = 1"
    "cc ! 1 = 0" by auto
  then have "cc = [1, 0]"
    by (auto simp: length_Suc_conv numeral_2_eq_2)
  then show ?thesis using cc(1) by (simp add: argmax_def)
qed

subsection \<open>Constant overlap-add of the Hamming window\<close>

lemma cola_hamming_nth:
  assumes "1 \<le> W" and "i < nat W"
  shows "cola_hamming W h ! i =
           (0.54 - 0.46 * cos (2 * pi * real i / real_of_int W)) / 1.08
             * real_of_int h / real_of_int W * 2"
proof -
  have hm: "hamming (W + 1) =
      map (\<lambda>n. 0.54 - 0.46 * cos (2 * pi * real n / real_of_int W)) [0..<nat (W + 1)]"
    using assms(1) by (simp add: hamming_def)
  have sl: "py_slice (hamming (W + 1)) 0 W = take (nat W) (hamming (W + 1))"
    using assms(1) by (simp add: py_slice_def Let_def hm min_def)
  have "take (nat W) [0..<nat (W + 1)] = [0..<nat W]"
    using assms(1) by simp
  then have "take (nat W) (hamming (W + 1)) =
      map (\<lambda>n. 0.54 - 0.46 * cos (2 * pi * real n / real_of_int W)) [0..<nat W]"
    by (simp add: hm take_map)
  then show ?thesis using assms(2) by (simp add: cola_hamming_def sl)
qed

lemma cola_residue:
  fixes h W r :: int and R :: nat
  assumes "1 \<le> h" and "W = int R * h" and "2 \<le> R" and "0 \<le> r" and "r < h"
  shows "(\<Sum>i<R. cola_hamming W h ! nat (r + int i * h)) = 1"
proof -
  have W1: "1 \<le> W"
  proof -
    have "1 * 1 \<le> int R * h" using assms(1,3) by (intro mult_mono) auto
    then show ?thesis by (simp add: assms(2))
  qed
  have Wr: "real_of_int W = real R * real_of_int h" by (simp add: assms(2))
  have h0: "0 < real_of_int h" and R0: "0 < real R" using assms(1,3) by auto
  define a where "a = 2 * pi * real_of_int r / real_of_int W"
  define K where "K = 2 / (1.08 * real R)"
  have coef: "cola_hamming W h ! nat (r + int i * h)
                = K * 0.54 - K * 0.46 * cos (a + 2 * pi * real i / real R)" if "i < R" for i
  proof -
    have "int i + 1 \<le> int R" using that by simp
    then have "(int i + 1) * h \<le> int R * h" using assms(1) by (intro mult_right_mono) auto
    then have lt: "r + int i * h < W" using assms(2,5) by (simp add: algebra_simps)
    have ge: "0 \<le> r + int i * h" using assms(1,4) by simp
    have idx: "nat (r + int i * h) < nat W" using lt ge by simp
    have ri: "real (nat (r + int i * h)) = real_of_int r + real i * real_of_int h"
      using ge by simp
    have "2 * pi * real (nat (r + int i * h)) / real_of_int W
            = a + 2 * pi * real i / real R"
      unfolding ri a_def Wr using h0 R0 by (simp add: field_simps)
    then have "cola_hamming W h ! nat (r + int i * h) =
        (0.54 - 0.46 * cos (a + 2 * pi * real i / real R)) / 1.08
             * real_of_int h / real_of_int W * 2"
      using cola_hamming_nth[OF W1 idx, of h] by simp
    also have "\<dots> = K * 0.54 - K * 0.46 * cos (a + 2 * pi * real i / real R)"
      unfolding Wr K_def using h0 R0 by (simp add: field_simps)
    finally show ?thesis .
  qed
  have "(\<Sum>i<R. cola_hamming W h ! nat (r + int i * h))
          = (\<Sum>i<R. K * 0.54 - K * 0.46 * cos (a + 2 * pi * real i / real R))"
    by (intro sum.cong) (auto simp: coef)
  also have "\<dots> = real R * (K * 0.54) - K * 0.46 * (\<Sum>i<R. cos (a + 2 * pi * real i / real R))"
    by (simp add: sum_subtractf sum_distrib_left)
  also have "\<dots> = real R * (K * 0.54)"
    using sum_cos_shifted[OF assms(3), of a] by simp
  also have "\<dots> = 1" unfolding K_def using R0 by (simp add: field_simps)
  finally show ?thesis .
qed


lemma shift_in_window:
  fixes d h r :: int and R :: nat
  assumes "1 \<le> h" and "0 \<le> r" and "r < h"
  shows "(0 \<le> d * h + r \<and> d * h + r < int R * h) \<longleftrightarrow> (0 \<le> d \<and> d < int R)"
proof
  assume a: "0 \<le> d * h + r \<and> d * h + r < int R * h"
  have "0 \<le> d"
  proof (rule ccontr)
    assume "\<not> 0 \<le> d"
    then have "d \<le> - 1" by simp
    then have "d * h \<le> (- 1) * h" using assms(1) by (intro mult_right_mono) auto
    then show False using a assms(3) by simp
  qed
  moreover have "d < int R"
  proof (rule ccontr)
    assume "\<not> d < int R"
    then have "int R \<le> d" by simp
    then have "int R * h \<le> d * h" using assms(1) by (intro mult_right_mono) auto
    then show False using a assms(2) by simp
  qed
  ultimately show "0 \<le> d \<and> d < int R" by simp
next
  assume b: "0 \<le> d \<and> d < int R"
  then have "0 \<le> d * h" using assms(1) by simp
  moreover have "(d + 1) * h \<le> int R * h" using b assms(1) by (intro mult_right_mono) auto
  ultimately show "0 \<le> d * h + r \<and> d * h + r < int R * h"
    using assms(2,3) by (simp add: algebra_simps)
qed

text \<open>
  C2, as amended.  For \<open>hop_size \<ge> 1\<close> that divides \<open>win_size\<close> with
  \<open>win_size \<ge> 2 * hop_size\<close>, the window \<open>w = cola_hamming win_size hop_size\<close> adds up to
  exactly 1 under overlap: for every sample position \<open>n\<close>, the sum of \<open>w[n - j * hop_size]\<close>
  over all integer shifts \<open>j\<close> with \<open>0 \<le> n - j * hop_size < win_size\<close> is 1.
\<close>

theorem cola_hamming_overlap_add:
  fixes win_size hop_size n :: int
  assumes "1 \<le> hop_size" and "hop_size dvd win_size" and "2 * hop_size \<le> win_size"
  shows "(\<Sum>j | 0 \<le> n - j * hop_size \<and> n - j * hop_size < win_size.
            cola_hamming win_size hop_size ! nat (n - j * hop_size)) = 1"
proof -
  obtain Ri where Ri: "win_size = hop_size * Ri" using assms(2) by (auto simp: dvd_def)
  have "hop_size * 2 \<le> hop_size * Ri" using assms(3) Ri by (simp add: mult.commute)
  then have Ri2: "2 \<le> Ri" using assms(1) by (simp add: mult_le_cancel_left)
  define R where "R = nat Ri"
  have W: "win_size = int R * hop_size" using Ri Ri2 by (simp add: R_def mult.commute)
  have R2: "2 \<le> R" using Ri2 by (simp add: R_def)
  define q where "q = n div hop_size"
  define r where "r = n mod hop_size"
  have r0: "0 \<le> r" and rh: "r < hop_size" using assms(1) by (simp_all add: r_def)
  have n: "n = q * hop_size + r" by (simp add: q_def r_def)
  have split: "n - j * hop_size = (q - j) * hop_size + r" for j
    by (simp add: n algebra_simps)
  have mem: "(0 \<le> n - j * hop_size \<and> n - j * hop_size < win_size) \<longleftrightarrow> (0 \<le> q - j \<and> q - j < int R)"
    for j
    unfolding split W using shift_in_window[OF assms(1) r0 rh] .
  have "(\<Sum>j | 0 \<le> n - j * hop_size \<and> n - j * hop_size < win_size.
            cola_hamming win_size hop_size ! nat (n - j * hop_size))
        = (\<Sum>i<R. cola_hamming win_size hop_size ! nat (r + int i * hop_size))"
  proof (rule sum.reindex_bij_witness[where i = "\<lambda>b. q - int b" and j = "\<lambda>a. nat (q - a)"])
    fix a assume "a \<in> {j. 0 \<le> n - j * hop_size \<and> n - j * hop_size < win_size}"
    then have a: "0 \<le> q - a" "q - a < int R" using mem[of a] by auto
    show "q - int (nat (q - a)) = a" using a by simp
    show "nat (q - a) \<in> {..<R}" using a by simp
    show "cola_hamming win_size hop_size ! nat (r + int (nat (q - a)) * hop_size)
            = cola_hamming win_size hop_size ! nat (n - a * hop_size)"
      using a by (simp add: split add.commute)
  next
    fix b assume "b \<in> {..<R}"
    then have b: "b < R" by simp
    show "nat (q - (q - int b)) = b" by simp
    show "q - int b \<in> {j. 0 \<le> n - j * hop_size \<and> n - j * hop_size < win_size}"
      using b mem[of "q - int b"] by simp
  qed
  also have "\<dots> = 1" using assms(1) W R2 r0 rh by (rule cola_residue)
  finally show ?thesis .
qed

theorem cola_hamming_overlap_add_witness:
  "(1 :: int) \<le> 1 \<and> (1 :: int) dvd 2 \<and> 2 * (1 :: int) \<le> 2
     \<and> (\<Sum>j | 0 \<le> (0 :: int) - j * 1 \<and> 0 - j * 1 < 2. cola_hamming 2 1 ! nat (0 - j * 1)) = 1"
  using cola_hamming_overlap_add[of 1 2 0] by simp

text \<open>
  The sizes 0 satisfy the two conditions of the claim as it stands, and so do the
  negative sizes \<open>win_size = -2\<close> and \<open>hop_size = -1\<close>; the window is then empty, no shift
  has an index inside it, and the sum is 0.
\<close>

theorem cola_hamming_zero_size_counterexample:
  "(0 :: int) dvd 0 \<and> 2 * (0 :: int) \<le> 0 \<and> cola_hamming 0 0 = []
     \<and> (\<Sum>j | 0 \<le> (0 :: int) - j * 0 \<and> 0 - j * 0 < 0. cola_hamming 0 0 ! nat (0 - j * 0)) \<noteq> 1
     \<and> (- 1 :: int) dvd - 2 \<and> 2 * (- 1 :: int) \<le> - 2 \<and> cola_hamming (- 2) (- 1) = []
     \<and> (\<Sum>j | 0 \<le> (0 :: int) - j * (- 1) \<and> 0 - j * (- 1) < - 2.
            cola_hamming (- 2) (- 1) ! nat (0 - j * (- 1))) \<noteq> 1"
proof -
  have e: "{j :: int. 0 \<le> j \<and> j < - 2} = {}" by auto
  show ?thesis by (simp add: cola_hamming_def py_slice_def hamming_def e)
qed

subsection \<open>Range of the normalised cross correlation\<close>

lemma ifft_bounded:
  assumes "c \<noteq> []"
  shows "\<exists>t. ifft c = Inr t \<and> length t = length c \<and> (\<forall>v \<in> set t. cmod v \<le> Max (set (map cmod c)))"
proof -
  define N where "N = length c"
  define M where "M = Max (cmod ` set c)"
  have N0: "0 < N" using assms by (simp add: N_def)
  have le: "cmod (c ! m) \<le> M" if "m < N" for m
    unfolding M_def using that by (intro Max_ge) (auto simp: N_def)
  have b: "cmod ((\<Sum>m<N. c ! m * cis (2 * pi * real m * real k / real N)) / of_nat N) \<le> M" for k
  proof -
    have "cmod (\<Sum>m<N. c ! m * cis (2 * pi * real m * real k / real N))
            \<le> (\<Sum>m<N. cmod (c ! m * cis (2 * pi * real m * real k / real N)))"
      by (rule norm_sum)
    also have "\<dots> = (\<Sum>m<N. cmod (c ! m))" by (simp add: norm_mult)
    also have "\<dots> \<le> (\<Sum>m<N. M)" by (intro sum_mono) (simp add: le)
    also have "\<dots> = real N * M" by simp
    finally have "cmod (\<Sum>m<N. c ! m * cis (2 * pi * real m * real k / real N)) / real N \<le> M"
      using N0 by (simp add: field_simps)
    then show ?thesis by (simp add: norm_divide)
  qed
  show ?thesis using N0 b by (auto simp: ifft_def N_def[symmetric] M_def[symmetric])
qed

lemma freq_upsample_nonzero:
  assumes "\<exists>b \<in> set p. b \<noteq> 0" and "k = 1 \<or> 1 < k"
  shows "\<exists>c. cc_freq_upsample p k = Inr c \<and> (\<exists>b \<in> set c. b \<noteq> 0)"
proof (cases "k = 1")
  case True
  then show ?thesis using assms(1) by (simp add: cc_freq_upsample_def)
next
  case False
  then have k: "1 < k" using assms(2) by simp
  then have k0: "complex_of_int k \<noteq> 0" by simp
  obtain b where b: "b \<in> set p" "b \<noteq> 0" using assms(1) by blast
  have pne: "p \<noteq> []" using b by auto
  show ?thesis
  proof (cases "even (length p)")
    case True
    define h where "h = length p div 2"
    have hl: "h < length p" using pne True by (auto simp: h_def)
    define q where "q = take h p @ [p ! h / 2] @ replicate (length p * nat (k - 1) - 1) 0
                          @ [p ! h / 2] @ drop (h + 1) p"
    have c: "cc_freq_upsample p k = Inr (map (\<lambda>v. of_int k * v) q)"
      using freq_upsample_even_unfold[OF True pne k]
      by (simp add: cc_freq_upsample_eq q_def h_def)
    have "p = take h p @ p ! h # drop (Suc h) p" using hl by (rule id_take_nth_drop)
    then have "set p = set (take h p) \<union> {p ! h} \<union> set (drop (Suc h) p)"
      by (metis Un_insert_right list.simps(15) set_append sup_bot.right_neutral Un_assoc insert_is_Un)
    then consider "b \<in> set (take h p)" | "b = p ! h" | "b \<in> set (drop (Suc h) p)"
      using b(1) by auto
    then have "\<exists>v \<in> set q. v \<noteq> 0"
    proof cases
      case 1
      then show ?thesis using b(2) by (auto simp: q_def)
    next
      case 2
      then have "p ! h / 2 \<noteq> 0" using b(2) by simp
      then show ?thesis by (auto simp: q_def)
    next
      case 3
      then show ?thesis using b(2) by (auto simp: q_def)
    qed
    then show ?thesis using c k0 by auto
  next
    case False
    define h where "h = length p div 2 + 1"
    define q where "q = take h p @ replicate (length p * nat (k - 1)) 0 @ drop h p"
    have c: "cc_freq_upsample p k = Inr (map (\<lambda>v. of_int k * v) q)"
      using False k by (auto simp: cc_freq_upsample_def Let_def q_def h_def)
    have "set p = set (take h p) \<union> set (drop h p)"
      by (metis append_take_drop_id set_append)
    then have "b \<in> set q" using b(1) by (auto simp: q_def)
    then show ?thesis using c k0 b(2) by auto
  qed
qed


text \<open>
  C10.  For equal-length signals \<open>x\<close> and \<open>y\<close> whose cross-power spectrum has a nonzero bin
  and an upsampling factor that is 1 or an integer greater than 1, \<^verbatim>\<open>cross_correlation\<close>
  returns a correlation all of whose entries lie in \<open>[-1, 1]\<close>: the inverse transform of
  the upsampled spectrum is bounded by the largest bin magnitude, by which it is divided.
\<close>

theorem cross_correlation_bounded:
  assumes "length x = length y" and "\<exists>i < length x. x ! i * cnj (y ! i) \<noteq> 0"
    and "upsample = 1 \<or> 1 < upsample"
  shows "\<exists>cc. cross_correlation x y upsample = Inr cc \<and> (\<forall>v \<in> set cc. - 1 \<le> v \<and> v \<le> 1)"
proof -
  define p where "p = map2 (*) x (map cnj y)"
  have np: "np_mul x (map cnj y) = Inr p" using assms(1) by (simp add: np_mul_def p_def)
  obtain i where i: "i < length x" "x ! i * cnj (y ! i) \<noteq> 0" using assms(2) by blast
  have pi: "p ! i = x ! i * cnj (y ! i)" and il: "i < length p"
    using i(1) assms(1) by (simp_all add: p_def)
  have "p ! i \<in> set p" using il by (rule nth_mem)
  moreover have "p ! i \<noteq> 0" unfolding pi using i(2) .
  ultimately have "\<exists>b \<in> set p. b \<noteq> 0" by blast
  from freq_upsample_nonzero[OF this assms(3)]
  obtain c b where c: "cc_freq_upsample p upsample = Inr c" and b: "b \<in> set c" "b \<noteq> 0"
    by blast
  have cne: "c \<noteq> []" using b(1) by auto
  define M where "M = Max (set (map cmod c))"
  obtain t where t: "ifft c = Inr t" "\<forall>v \<in> set t. cmod v \<le> M"
    using ifft_bounded[OF cne] by (auto simp: M_def)
  have "cmod b \<le> M" unfolding M_def using b(1) by (intro Max_ge) auto
  moreover have "0 < cmod b" using b(2) by simp
  ultimately have M0: "0 < M" by linarith
  have mx: "np_max (map cmod c) = Inr M" using cne by (simp add: np_max_def M_def)
  have cc: "cross_correlation x y upsample = Inr (map (\<lambda>v. Re (v / complex_of_real M)) t)"
    unfolding cross_correlation_def np sum.case c t(1) mx ..
  have "- 1 \<le> Re (v / complex_of_real M) \<and> Re (v / complex_of_real M) \<le> 1" if "v \<in> set t" for v
  proof -
    have "\<bar>Re (v / complex_of_real M)\<bar> \<le> cmod (v / complex_of_real M)" by (rule abs_Re_le_cmod)
    also have "\<dots> = cmod v / M" using M0 by (simp add: norm_divide)
    also have "\<dots> \<le> 1" using t(2) that M0 by simp
    finally show ?thesis by linarith
  qed
  then show ?thesis using cc by auto
qed

theorem cross_correlation_bounded_witness:
  "cross_correlation [1] [1] 1 = Inr [1] \<and> - 1 \<le> (1 :: real) \<and> (1 :: real) \<le> 1"
proof -
  have "\<exists>cc. cross_correlation [1] [1] 1 = Inr cc \<and> (\<forall>v \<in> set cc. - 1 \<le> v \<and> v \<le> 1)"
    by (rule cross_correlation_bounded) simp_all
  moreover have "cross_correlation [1] [1] 1 = Inr [1]"
    by (simp add: cross_correlation_def np_mul_def cc_freq_upsample_def ifft_def np_max_def)
  ultimately show ?thesis by simp
qed

subsection \<open>Upsampling keeps conjugate symmetry\<close>

lemma conj_symmetric_iff:
  "conj_symmetric s \<longleftrightarrow> (\<forall>k < length s. s ! k = cnj (s ! ((length s - k) mod length s)))"
  by (auto simp: conj_symmetric_def list_all_iff)

lemma conj_symmetric_pad:
  fixes s q :: "complex list"
  assumes sym: "conj_symmetric s"
    and len: "length q = L" "length s \<le> L"
    and A: "1 \<le> A" "2 * A - 1 \<le> length s"
    and head: "\<And>i. i < A \<Longrightarrow> q ! i = s ! i"
    and mid: "\<And>i. A \<le> i \<Longrightarrow> i + A \<le> L \<Longrightarrow> q ! i = cnj (q ! (L - i))"
    and tail: "\<And>i. L < i + A \<Longrightarrow> i < L \<Longrightarrow> q ! i = s ! (i - (L - length s))"
  shows "conj_symmetric q"
proof -
  define l where "l = length s"
  have s: "s ! k = cnj (s ! ((l - k) mod l))" if "k < l" for k
    using sym that by (simp add: conj_symmetric_iff l_def)
  have Al: "A \<le> l" using A by (simp add: l_def)
  have lL: "l \<le> L" using len by (simp add: l_def)
  have "q ! m = cnj (q ! ((L - m) mod L))" if mL: "m < L" for m
  proof -
    consider "m = 0" | "0 < m" "m < A" | "A \<le> m" "m + A \<le> L" | "L < m + A"
      by atomize_elim arith
    then show ?thesis
    proof cases
      case 1
      have "s ! 0 = cnj (s ! 0)" using s[of 0] Al A(1) by simp
      then show ?thesis using 1 head[of 0] A(1) by simp
    next
      case 2
      have m': "(L - m) mod L = L - m" using 2 mL by simp
      have "q ! (L - m) = s ! (L - m - (L - l))"
        unfolding l_def using 2 mL by (intro tail) auto
      also have "L - m - (L - l) = l - m" using lL 2 Al by simp
      finally have t: "q ! (L - m) = s ! (l - m)" .
      have "(l - m) mod l = l - m" using 2 Al by simp
      then have "s ! m = cnj (s ! (l - m))" using s[of m] 2 Al by simp
      then show ?thesis using head[of m] 2 t m' by simp
    next
      case 3
      have "(L - m) mod L = L - m" using 3 A(1) mL by simp
      then show ?thesis using mid[of m] 3 by simp
    next
      case 4
      define j where "j = L - m"
      have j: "0 < j" "j < A" "m = L - j" "j < L"
        unfolding j_def using 4 mL Al lL by linarith+
      have jl: "j < l" using j Al by simp
      have m': "(L - m) mod L = j" unfolding j_def[symmetric] using j(4) by simp
      have "q ! m = s ! (m - (L - l))" unfolding l_def using 4 mL by (intro tail) auto
      also have "m - (L - l) = l - j" using j lL jl by simp
      finally have t: "q ! m = s ! (l - j)" .
      have "(l - (l - j)) mod l = j" using jl by simp
      then have "s ! (l - j) = cnj (s ! j)" using s[of "l - j"] j jl by simp
      then show ?thesis using t head[of j] j m' by simp
    qed
  qed
  then show ?thesis unfolding conj_symmetric_iff len(1) by blast
qed

lemma conj_symmetric_scale:
  assumes "conj_symmetric q"
  shows "conj_symmetric (map (\<lambda>v. of_int k * v) q)"
proof -
  have "map (\<lambda>v. of_int k * v) q ! m
          = cnj (map (\<lambda>v. of_int k * v) q ! ((length q - m) mod length q))"
    if "m < length q" for m
  proof -
    define m' where "m' = (length q - m) mod length q"
    have "0 < length q" using that by linarith
    then have "m' < length q" unfolding m'_def by (rule mod_less_divisor)
    then have b: "map (\<lambda>v. of_int k * v) q ! m' = of_int k * q ! m'" by simp
    have a: "map (\<lambda>v. of_int k * v) q ! m = of_int k * q ! m" using that by simp
    have c: "q ! m = cnj (q ! m')"
      using assms that unfolding conj_symmetric_iff m'_def by blast
    show ?thesis unfolding m'_def[symmetric] a b by (subst c) simp
  qed
  then show ?thesis unfolding conj_symmetric_iff length_map by blast
qed


lemma cis_reflect:
  assumes "a < N"
  shows "cis (- (2 * pi * real ((N - a) mod N) * real k / real N))
           = cis (2 * pi * real a * real k / real N)"
proof (cases "a = 0")
  case True
  then show ?thesis by simp
next
  case False
  then have m: "(N - a) mod N = N - a" using assms by simp
  have N0: "real N \<noteq> 0" using assms by simp
  have "- (2 * pi * real (N - a) * real k / real N)
          = 2 * pi * real a * real k / real N + - (2 * pi * real k)"
    using assms N0 by (simp add: of_nat_diff field_simps)
  then have "cis (- (2 * pi * real (N - a) * real k / real N))
          = cis (2 * pi * real a * real k / real N) * cis (- (2 * pi * real k))"
    by (simp only: cis_mult)
  also have "cis (- (2 * pi * real k)) = cnj (cis (2 * pi * real k))" by (simp only: cis_cnj)
  also have "cis (2 * pi * real k) = 1" by (rule cis_multiple_2pi) simp
  finally show ?thesis by (simp add: m)
qed

lemma ifft_real:
  assumes "conj_symmetric r" and "r \<noteq> []"
  shows "\<exists>t. ifft r = Inr t \<and> length t = length r \<and> (\<forall>v \<in> set t. Im v = 0)"
proof -
  define N where "N = length r"
  have N0: "0 < N" using assms(2) by (simp add: N_def)
  have sym: "r ! a = cnj (r ! ((N - a) mod N))" if "a < N" for a
    using assms(1) that unfolding conj_symmetric_iff N_def by blast
  have im: "Im ((\<Sum>m<N. r ! m * cis (2 * pi * real m * real k / real N)) / of_nat N) = 0" for k
  proof -
    define S where "S = (\<Sum>m<N. r ! m * cis (2 * pi * real m * real k / real N))"
    have "S = (\<Sum>m<N. cnj (r ! m) * cis (- (2 * pi * real m * real k / real N)))"
      unfolding S_def
    proof (rule sum.reindex_bij_witness[where i = "\<lambda>m. (N - m) mod N" and j = "\<lambda>m. (N - m) mod N"])
      fix a assume "a \<in> {..<N}"
      then have a: "a < N" by simp
      show "(N - (N - a) mod N) mod N = a" using a by (cases "a = 0") simp_all
      show "(N - a) mod N \<in> {..<N}" using N0 by simp
      have "cnj (r ! ((N - a) mod N)) = r ! a" using sym[OF a] by simp
      then show "cnj (r ! ((N - a) mod N)) * cis (- (2 * pi * real ((N - a) mod N) * real k / real N))
                   = r ! a * cis (2 * pi * real a * real k / real N)"
        using cis_reflect[OF a, of k] by simp
    next
      fix b assume "b \<in> {..<N}"
      then have b: "b < N" by simp
      show "(N - (N - b) mod N) mod N = b" using b by (cases "b = 0") simp_all
      show "(N - b) mod N \<in> {..<N}" using N0 by simp
    qed
    also have "\<dots> = cnj S" by (simp add: S_def cis_cnj)
    finally have "Im S = Im (cnj S)" by simp
    then have "Im S = 0" by simp
    then show ?thesis by (simp add: S_def[symmetric] complex_is_Real_iff)
  qed
  show ?thesis using N0 im by (auto simp: ifft_def N_def[symmetric])
qed


lemma nth_pad_odd:
  fixes s :: "complex list" and z :: nat
  assumes "h \<le> length s"
  defines "q \<equiv> take h s @ replicate z 0 @ drop h s"
  shows "length q = length s + z"
    and "i < h \<Longrightarrow> q ! i = s ! i"
    and "h \<le> i \<Longrightarrow> i < h + z \<Longrightarrow> q ! i = 0"
    and "h + z \<le> i \<Longrightarrow> i < length s + z \<Longrightarrow> q ! i = s ! (i - z)"
proof -
  show "length q = length s + z" using assms by (simp add: q_def)
  show "i < h \<Longrightarrow> q ! i = s ! i" using assms by (simp add: q_def nth_append)
  show "h \<le> i \<Longrightarrow> i < h + z \<Longrightarrow> q ! i = 0"
    using assms by (auto simp: q_def nth_append)
  show "q ! i = s ! (i - z)" if hz: "h + z \<le> i" and il: "i < length s + z"
  proof -
    define d where "d = i - (h + z)"
    have d: "i = h + z + d" using hz by (simp add: d_def)
    have "q ! i = drop h s ! d" using assms by (simp add: q_def nth_append d)
    also have "\<dots> = s ! (h + d)" using il d by simp
    finally show ?thesis using d by simp
  qed
qed

lemma conj_symmetric_pad_even:
  assumes sym: "conj_symmetric s" and ev: "even (length s)" and ne: "s \<noteq> []" and k: "1 < k"
  shows "conj_symmetric (take (length s div 2) s @ [s ! (length s div 2) / 2]
          @ replicate (length s * nat (k - 1) - 1) 0
          @ [s ! (length s div 2) / 2] @ drop (length s div 2 + 1) s)" (is "conj_symmetric ?q")
    and "length (take (length s div 2) s @ [s ! (length s div 2) / 2]
          @ replicate (length s * nat (k - 1) - 1) 0
          @ [s ! (length s div 2) / 2] @ drop (length s div 2 + 1) s) = length s * nat k"
proof -
  define l where "l = length s"
  define h where "h = l div 2"
  define z where "z = l * nat (k - 1) - 1"
  define a where "a = s ! h / 2"
  define q where "q = take h s @ [a] @ replicate z 0 @ [a] @ drop (h + 1) s"
  define L where "L = l * nat k"
  have l2: "l = 2 * h" using ev by (simp add: l_def h_def)
  have l0: "0 < l" using ne by (simp add: l_def)
  then have h0: "0 < h" using l2 by linarith
  have hl: "h < length s" using l2 h0 by (simp add: l_def[symmetric])
  define m where "m = nat k - 2"
  have m: "nat k = m + 2" using k by (simp add: m_def)
  have km: "nat (k - 1) = m + 1" using m by linarith
  have "0 < l * (m + 1)" using l0 by simp
  then have z1: "z + 1 = l * (m + 1)" unfolding z_def km by linarith
  have Ll: "L = l + z + 1" using z1 by (simp add: L_def m algebra_simps)
  note pe = nth_pad_even[OF hl, where a=a and z=z, folded q_def]
  have len: "length q = L" using pe(1) by (simp add: Ll l_def)
  have "s ! h = cnj (s ! ((l - h) mod l))"
    using sym hl unfolding conj_symmetric_iff l_def by blast
  moreover have "(l - h) mod l = h" using l2 h0 by simp
  ultimately have "cnj (s ! h) = s ! h" by simp
  then have areal: "cnj a = a" by (simp add: a_def)
  have "conj_symmetric q"
  proof (rule conj_symmetric_pad[OF sym, where A = h and L = L])
    show "length q = L" by (rule len)
    show "length s \<le> L" using Ll by (simp add: l_def)
    show "1 \<le> h" using h0 by simp
    show "2 * h - 1 \<le> length s" using l2 by (simp add: l_def[symmetric])
    show "q ! i = s ! i" if "i < h" for i using pe(2)[OF that] .
    show "q ! i = cnj (q ! (L - i))" if lo: "h \<le> i" and hi: "i + h \<le> L" for i
    proof -
      have Lh: "L - h = h + z + 1" using Ll l2 by simp
      consider "i = h" | "i = h + z + 1" | "h < i" "i < h + z + 1"
        using lo hi Lh by atomize_elim arith
      then show ?thesis
      proof cases
        case 1
        then have "L - i = h + z + 1" using Lh by simp
        then show ?thesis using 1 pe(3) pe(4) areal by simp
      next
        case 2
        then have "L - i = h" using Ll l2 by simp
        then show ?thesis using 2 pe(3) pe(4) areal by simp
      next
        case 3
        have "h < L - i" "L - i < h + z + 1" using 3 Ll l2 by linarith+
        then have "q ! (L - i) = 0" by (rule pe(5))
        moreover have "q ! i = 0" using 3 by (rule pe(5))
        ultimately show ?thesis by simp
      qed
    qed
    show "q ! i = s ! (i - (L - length s))" if lo: "L < i + h" and hi: "i < L" for i
    proof -
      have "h + z + 1 < i" "i < length s + z + 1" using lo hi Ll l2 by (simp_all add: l_def)
      then have "q ! i = s ! (i - z - 1)" by (rule pe(6))
      moreover have "i - z - 1 = i - (L - length s)" using Ll by (simp add: l_def)
      ultimately show ?thesis by simp
    qed
  qed
  then show "conj_symmetric ?q" by (simp add: q_def a_def z_def h_def l_def)
  show "length ?q = length s * nat k"
    using len by (simp add: q_def a_def z_def h_def l_def L_def)
qed


lemma conj_symmetric_pad_odd:
  assumes sym: "conj_symmetric s" and od: "odd (length s)" and k: "1 < k"
  shows "conj_symmetric (take (length s div 2 + 1) s @ replicate (length s * nat (k - 1)) 0
          @ drop (length s div 2 + 1) s)" (is "conj_symmetric ?q")
    and "length (take (length s div 2 + 1) s @ replicate (length s * nat (k - 1)) 0
          @ drop (length s div 2 + 1) s) = length s * nat k"
proof -
  define l where "l = length s"
  define h where "h = l div 2 + 1"
  define z where "z = l * nat (k - 1)"
  define q where "q = take h s @ replicate z 0 @ drop h s"
  define L where "L = l * nat k"
  have l2: "l + 1 = 2 * h" using od by (auto simp: l_def h_def elim: oddE)
  have hl: "h \<le> length s" using l2 by (simp add: l_def[symmetric])
  define m where "m = nat k - 2"
  have m: "nat k = m + 2" using k by (simp add: m_def)
  have km: "nat (k - 1) = m + 1" using m by linarith
  have Ll: "L = l + z" by (simp add: L_def z_def km m algebra_simps)
  note po = nth_pad_odd[OF hl, where z=z, folded q_def]
  have len: "length q = L" using po(1) by (simp add: Ll l_def)
  have "conj_symmetric q"
  proof (rule conj_symmetric_pad[OF sym, where A = h and L = L])
    show "length q = L" by (rule len)
    show "length s \<le> L" using Ll by (simp add: l_def)
    show "1 \<le> h" by (simp add: h_def)
    show "2 * h - 1 \<le> length s" using l2 by (simp add: l_def[symmetric])
    show "q ! i = s ! i" if "i < h" for i using po(2)[OF that] .
    show "q ! i = cnj (q ! (L - i))" if lo: "h \<le> i" and hi: "i + h \<le> L" for i
    proof -
      have "i < h + z" using hi Ll l2 by linarith
      with lo have "q ! i = 0" by (rule po(3))
      moreover have "h \<le> L - i" "L - i < h + z" using lo hi Ll l2 by linarith+
      then have "q ! (L - i) = 0" by (rule po(3))
      ultimately show ?thesis by simp
    qed
    show "q ! i = s ! (i - (L - length s))" if lo: "L < i + h" and hi: "i < L" for i
    proof -
      have "h + z \<le> i" "i < length s + z" using lo hi Ll l2 by (simp_all add: l_def)
      then have "q ! i = s ! (i - z)" by (rule po(4))
      moreover have "i - z = i - (L - length s)" using Ll by (simp add: l_def)
      ultimately show ?thesis by simp
    qed
  qed
  then show "conj_symmetric ?q" by (simp add: q_def z_def h_def l_def)
  show "length ?q = length s * nat k"
    using len by (simp add: q_def z_def h_def l_def L_def)
qed

text \<open>
  C4.  For an integer \<open>upsample > 1\<close> and a conjugate-symmetric spectrum \<open>s\<close> of length
  \<open>l \<ge> 2\<close>, both copies of \<^verbatim>\<open>freq_upsample\<close> return a conjugate-symmetric spectrum of
  length \<open>l * upsample\<close>, and the inverse transform of that spectrum is real-valued.
\<close>

theorem freq_upsample_conj_symmetric:
  assumes "1 < upsample" and "2 \<le> length s" and "conj_symmetric s"
  shows "\<exists>r. freq_upsample s upsample = Inr r \<and> cc_freq_upsample s upsample = Inr r
           \<and> length r = length s * nat upsample \<and> conj_symmetric r
           \<and> (\<exists>t. ifft r = Inr t \<and> length t = length r \<and> (\<forall>v \<in> set t. Im v = 0))"
proof -
  have ne: "s \<noteq> []" using assms(2) by auto
  have "\<exists>q. freq_upsample s upsample = Inr (map (\<lambda>v. of_int upsample * v) q)
          \<and> conj_symmetric q \<and> length q = length s * nat upsample"
  proof (cases "even (length s)")
    case True
    show ?thesis
      using freq_upsample_even_unfold[OF True ne assms(1)]
        conj_symmetric_pad_even[OF assms(3) True ne assms(1)] by blast
  next
    case False
    then have "freq_upsample s upsample =
        Inr (map (\<lambda>v. of_int upsample * v)
          (take (length s div 2 + 1) s @ replicate (length s * nat (upsample - 1)) 0
            @ drop (length s div 2 + 1) s))"
      using assms(1) by (auto simp: freq_upsample_def Let_def)
    then show ?thesis
      using conj_symmetric_pad_odd[OF assms(3) False assms(1)] by blast
  qed
  then obtain q where q: "freq_upsample s upsample = Inr (map (\<lambda>v. of_int upsample * v) q)"
    "conj_symmetric q" "length q = length s * nat upsample"
    by blast
  define r where "r = map (\<lambda>v. of_int upsample * v) q"
  have sr: "conj_symmetric r" unfolding r_def using q(2) by (rule conj_symmetric_scale)
  have lr: "length r = length s * nat upsample" using q(3) by (simp add: r_def)
  have "0 < length s" "0 < nat upsample" using assms(1,2) by linarith+
  then have "0 < length s * nat upsample" by simp
  then have "r \<noteq> []" using lr by auto
  from ifft_real[OF sr this] show ?thesis
    using q(1) sr lr by (auto simp: cc_freq_upsample_eq r_def[symmetric])
qed

theorem freq_upsample_conj_symmetric_witness:
  "(1 :: int) < 2 \<and> 2 \<le> length [1, 2 :: complex] \<and> conj_symmetric [1, 2]
     \<and> freq_upsample [1, 2] 2 = Inr [2, 2, 0, 2] \<and> conj_symmetric [2, 2, 0, 2]"
proof -
  have s: "conj_symmetric [1, 2]" by (simp add: conj_symmetric_def)
  have "\<exists>r. freq_upsample [1, 2] 2 = Inr r \<and> cc_freq_upsample [1, 2] 2 = Inr r
           \<and> length r = length [1, 2 :: complex] * nat 2 \<and> conj_symmetric r
           \<and> (\<exists>t. ifft r = Inr t \<and> length t = length r \<and> (\<forall>v \<in> set t. Im v = 0))"
    by (rule freq_upsample_conj_symmetric) (simp_all add: s)
  moreover have "freq_upsample [1, 2] 2 = Inr [2, 2, 0, 2]"
    by (simp add: freq_upsample_def)
  ultimately show ?thesis using s by auto
qed

end
